theory Spec2Isabelle
  imports Complex_Main "HOL-Library.Word"
begin

section \<open>C data\<close>

text \<open>
  A pointer is either the null pointer or points at an object; the object is carried
  with the pointer, so that the contents a callee leaves behind can be returned.
\<close>

datatype 'a ptr = NULL | Ptr 'a

text \<open>
  The C type \<open>int\<close> is a 32-bit two's complement integer: comparisons read both sides
  as signed values (\<open>sint\<close>), and addition wraps around, as the machine's does where C
  leaves a signed overflow undefined.
\<close>

type_synonym c_int = "32 word"

abbreviation NUL :: char where
  "NUL \<equiv> CHR 0x00"

text \<open>
  A \<open>const char *\<close> points at bytes; the string functions read them up to the first
  NUL byte. The list carried by the pointer holds the bytes at the address, and a
  terminator follows the last of them.
\<close>

definition c_str :: "char list \<Rightarrow> char list" where
  "c_str bs = takeWhile (\<lambda>c. c \<noteq> NUL) bs"

definition strlen :: "char list \<Rightarrow> nat" where
  "strlen bs = length (c_str bs)"

text \<open>
  The caller's buffer: the bytes at \<open>result + i\<close> for every offset \<open>i\<close>, and the
  offsets stored to, in the order of the stores. Nothing in the memory model stops a store
  past the end of the caller's array, so that such a store shows in \<open>writes\<close>.
\<close>

record buffer =
  mem :: "int \<Rightarrow> char"
  writes :: "int list"

definition poke :: "int \<Rightarrow> char \<Rightarrow> buffer \<Rightarrow> buffer" where
  "poke p c b = b\<lparr>mem := (mem b)(p := c), writes := writes b @ [p]\<rparr>"

fun store_bytes :: "int \<Rightarrow> char list \<Rightarrow> buffer \<Rightarrow> buffer" where
  "store_bytes p [] b = b"
| "store_bytes p (c # cs) b = store_bytes (p + 1) cs (poke p c b)"

text \<open>\<open>strcpy(result + p, src)\<close>: the bytes of the string and its terminator.\<close>

definition strcpy :: "int \<Rightarrow> char list \<Rightarrow> buffer \<Rightarrow> buffer" where
  "strcpy p src b = store_bytes p (c_str src @ [NUL]) b"

section \<open>The whisper library\<close>

text \<open>
  The library is not part of the repository: its functions are parameters of the model.
  A context pointer carries the state of the library's context, of type \<open>'st\<close>; the audio
  samples are an opaque object of type \<open>'s\<close>. Of the two parameter structures only the
  fields the wrapper assigns are named; the others are the record's extension. The
  \<open>float\<close> fields are reals: the wrapper assigns them the constants 0, 1 and -1 only.
\<close>

datatype whisper_sampling_strategy = WHISPER_SAMPLING_GREEDY | WHISPER_SAMPLING_BEAM_SEARCH

record whisper_context_params =
  use_gpu :: bool

record whisper_full_params =
  language :: "char list ptr"
  translate :: bool
  print_realtime :: bool
  print_progress :: bool
  print_timestamps :: bool
  print_special :: bool
  no_context :: bool
  single_segment :: bool
  suppress_blank :: bool
  suppress_nst :: bool
  temperature :: real
  max_initial_ts :: real
  length_penalty :: real
  n_threads :: c_int

record ('st, 's, 'm, 'k) whisper_lib =
  whisper_context_default_params :: "'k whisper_context_params_scheme"
  whisper_init_from_file_with_params ::
    "char list ptr \<Rightarrow> 'k whisper_context_params_scheme \<Rightarrow> 'st ptr"
  whisper_full_default_params ::
    "whisper_sampling_strategy \<Rightarrow> 'm whisper_full_params_scheme"
  whisper_reset_timings :: "'st \<Rightarrow> 'st"
  whisper_full ::
    "'st \<Rightarrow> 'm whisper_full_params_scheme \<Rightarrow> 's \<Rightarrow> c_int \<Rightarrow> c_int \<times> 'st"
  whisper_full_n_segments :: "'st \<Rightarrow> c_int"
  whisper_full_get_segment_text :: "'st \<Rightarrow> c_int \<Rightarrow> char list ptr"

text \<open>The calls a wrapper function makes into the library, in order.\<close>

datatype ('s, 'm, 'k) lib_call =
    Context_default_params
  | Init_from_file_with_params "char list ptr" "'k whisper_context_params_scheme"
  | Free
  | Full_default_params whisper_sampling_strategy
  | Reset_timings
  | Full "'m whisper_full_params_scheme" 's c_int
  | Full_n_segments
  | Full_get_segment_text c_int
  | Print_timings

section \<open>The wrapper\<close>

text \<open>Console output (\<open>printf\<close>) is not part of the model.\<close>

subsection \<open>\<open>whisper_wrapper_init_from_file\<close>\<close>

definition whisper_wrapper_init_from_file ::
  "('st, 's, 'm, 'k) whisper_lib \<Rightarrow> char list ptr \<Rightarrow> 'st ptr \<times> ('s, 'm, 'k) lib_call list" where
  "whisper_wrapper_init_from_file L path_model =
     (let cparams = whisper_context_default_params L;
          cparams = cparams\<lparr>use_gpu := True\<rparr>;
          ctx = whisper_init_from_file_with_params L path_model cparams;
          calls = [Context_default_params, Init_from_file_with_params path_model cparams]
      in if ctx = NULL then (NULL, calls) else (ctx, calls))"

subsection \<open>\<open>whisper_wrapper_free\<close>\<close>

definition whisper_wrapper_free :: "'st ptr \<Rightarrow> ('s, 'm, 'k) lib_call list" where
  "whisper_wrapper_free ctx = (if ctx \<noteq> NULL then [Free] else [])"

subsection \<open>\<open>whisper_wrapper_full_transcribe\<close>\<close>

text \<open>Lines 40 to 60: the parameters handed to \<open>whisper_full\<close>.\<close>

definition wrapper_full_params ::
  "('st, 's, 'm, 'k) whisper_lib \<Rightarrow> 'm whisper_full_params_scheme" where
  "wrapper_full_params L =
     (let wparams = whisper_full_default_params L WHISPER_SAMPLING_GREEDY;
          wparams = wparams\<lparr>language := Ptr ''en''\<rparr>;
          wparams = wparams\<lparr>translate := False\<rparr>;
          wparams = wparams\<lparr>print_realtime := False\<rparr>;
          wparams = wparams\<lparr>print_progress := False\<rparr>;
          wparams = wparams\<lparr>print_timestamps := False\<rparr>;
          wparams = wparams\<lparr>print_special := False\<rparr>;
          wparams = wparams\<lparr>no_context := True\<rparr>;
          wparams = wparams\<lparr>single_segment := False\<rparr>;
          wparams = wparams\<lparr>suppress_blank := True\<rparr>;
          wparams = wparams\<lparr>suppress_nst := True\<rparr>;
          wparams = wparams\<lparr>temperature := 0\<rparr>;
          wparams = wparams\<lparr>max_initial_ts := 1\<rparr>;
          wparams = wparams\<lparr>length_penalty := - 1\<rparr>;
          n_threads = (4 :: c_int);
          n_threads = (if 8 < sint n_threads then 8 else n_threads)
      in wparams\<lparr>n_threads := n_threads\<rparr>)"

text \<open>The loop counter stays below a value of type \<open>int\<close>, so \<open>++i\<close> does not wrap.\<close>

lemma sint_succ_less:
  fixes i n :: c_int
  assumes "sint i < sint n"
  shows "sint (i + 1) = sint i + 1"
proof -
  have "sint n < 2 ^ 31" using sint_lt [of n] by simp
  moreover have "- (2 ^ 31) \<le> sint i" using sint_ge [of i] by simp
  ultimately have "- (2 ^ 31) \<le> sint i + 1 \<and> sint i + 1 < 2 ^ 31" using assms by simp
  then show ?thesis
    by (simp add: sint_word_ariths signed_take_bit_int_eq_self)
qed

text \<open>
  Lines 81 to 94, the loop over the segments: \<open>i\<close> is the loop counter, \<open>result_pos\<close>
  the write position. It returns the position, the buffer and the calls made when the
  loop ends, by its condition or by \<open>break\<close>. The length \<open>strlen\<close> returns is a
  \<open>size_t\<close>; the assignment to \<open>int text_len\<close> keeps its low 32 bits (\<open>of_nat\<close>), and the
  sums of the guard and of \<open>result_pos += text_len\<close> wrap around.
\<close>

function seg_loop ::
  "(c_int \<Rightarrow> char list ptr) \<Rightarrow> c_int \<Rightarrow> c_int \<Rightarrow> c_int \<Rightarrow> c_int \<Rightarrow> buffer \<Rightarrow>
   ('s, 'm, 'k) lib_call list \<Rightarrow> c_int \<times> buffer \<times> ('s, 'm, 'k) lib_call list" where
  "seg_loop get_text n_segments result_size i result_pos b calls =
     (if sint i < sint n_segments then
        (case get_text i of
           NULL \<Rightarrow>
             seg_loop get_text n_segments result_size (i + 1) result_pos b
               (calls @ [Full_get_segment_text i])
         | Ptr text \<Rightarrow>
             (let text_len = (of_nat (strlen text) :: c_int) in
              if sint (result_pos + text_len + 1) < sint result_size then
                seg_loop get_text n_segments result_size (i + 1) (result_pos + text_len)
                  (strcpy (sint result_pos) text b) (calls @ [Full_get_segment_text i])
              else (result_pos, b, calls @ [Full_get_segment_text i])))
      else (result_pos, b, calls))"
  by pat_completeness auto

termination seg_loop
  by (relation "measure (\<lambda>(g, n, rs, i, p, b, c). nat (sint n - sint i))")
     (auto simp: sint_succ_less)

declare seg_loop.simps [simp del]

record ('st, 's, 'm, 'k) outcome =
  retval :: c_int
  ctx_out :: "'st ptr"
  buf :: "buffer ptr"
  calls :: "('s, 'm, 'k) lib_call list"

text \<open>
  Lines 35 to 37: the outcome of the early return. Nothing has been called and nothing has
  been stored.
\<close>

definition rejected ::
  "'st ptr \<Rightarrow> (int \<Rightarrow> char) ptr \<Rightarrow> ('st, 's, 'm, 'k) outcome" where
  "rejected ctx result =
     \<lparr>retval = - 1, ctx_out = ctx,
      buf = (case result of NULL \<Rightarrow> NULL | Ptr m \<Rightarrow> Ptr \<lparr>mem = m, writes = []\<rparr>),
      calls = []\<rparr>"

definition whisper_wrapper_full_transcribe ::
  "('st, 's, 'm, 'k) whisper_lib \<Rightarrow> 'st ptr \<Rightarrow> 's ptr \<Rightarrow> c_int \<Rightarrow> (int \<Rightarrow> char) ptr \<Rightarrow> c_int \<Rightarrow>
   ('st, 's, 'm, 'k) outcome" where
  "whisper_wrapper_full_transcribe L ctx samples n_samples result result_size =
     (case ctx of NULL \<Rightarrow> rejected ctx result | Ptr st \<Rightarrow>
      case samples of NULL \<Rightarrow> rejected ctx result | Ptr smp \<Rightarrow>
      case result of NULL \<Rightarrow> rejected ctx result | Ptr m \<Rightarrow>
        if sint result_size \<le> 0 then rejected ctx result
        else
          (let wparams = wrapper_full_params L;
               b0 = \<lparr>mem = m, writes = []\<rparr>;
               st1 = whisper_reset_timings L st;
               (ret, st2) = whisper_full L st1 wparams smp n_samples;
               calls1 = [Full_default_params WHISPER_SAMPLING_GREEDY, Reset_timings,
                         Full wparams smp n_samples]
           in if ret \<noteq> 0 then
                \<lparr>retval = ret, ctx_out = Ptr st2, buf = Ptr b0, calls = calls1\<rparr>
              else
                (let n_segments = whisper_full_n_segments L st2;
                     calls2 = calls1 @ [Full_n_segments]
                 in if n_segments = 0 then
                      \<lparr>retval = 0, ctx_out = Ptr st2, buf = Ptr (poke 0 NUL b0),
                       calls = calls2\<rparr>
                    else
                      (let (result_pos, b, calls3) =
                             seg_loop (whisper_full_get_segment_text L st2) n_segments
                               result_size 0 0 b0 calls2
                       in \<lparr>retval = 0, ctx_out = Ptr st2,
                           buf = Ptr (poke (sint result_pos) NUL b),
                           calls = calls3 @ [Print_timings]\<rparr>))))"

section \<open>Notions for the properties\<close>

text \<open>The bytes a pointer list holds, the null pointers left out.\<close>

fun non_null :: "'a ptr list \<Rightarrow> 'a list" where
  "non_null [] = []"
| "non_null (NULL # ps) = non_null ps"
| "non_null (Ptr x # ps) = x # non_null ps"

text \<open>
  The segments the library reports for a context, in ascending index order: what
  \<open>whisper_full_get_segment_text\<close> returns for the indices below
  \<open>whisper_full_n_segments\<close>; and from a start index on, for the loop.
\<close>

definition segments_from :: "(c_int \<Rightarrow> char list ptr) \<Rightarrow> c_int \<Rightarrow> c_int \<Rightarrow> char list ptr list" where
  "segments_from get_text i n = map (\<lambda>k. get_text (of_nat k)) [nat (sint i)..<nat (sint n)]"

definition segments :: "('st, 's, 'm, 'k) whisper_lib \<Rightarrow> 'st \<Rightarrow> char list ptr list" where
  "segments L st =
     segments_from (whisper_full_get_segment_text L st) 0 (whisper_full_n_segments L st)"

text \<open>The string a list of segments spells, and its length.\<close>

definition seg_string :: "char list ptr list \<Rightarrow> char list" where
  "seg_string ps = concat (map c_str (non_null ps))"

definition seg_length :: "char list ptr list \<Rightarrow> int" where
  "seg_length ps = int (length (seg_string ps))"

text \<open>
  \<open>holds_c_string m s\<close>: the memory \<open>m\<close> holds, from offset 0, the bytes of \<open>s\<close> and then
  a terminator, and no byte of \<open>s\<close> is one: read as a C string, \<open>m\<close> is \<open>s\<close>.
\<close>

definition read_bytes :: "(int \<Rightarrow> char) \<Rightarrow> int \<Rightarrow> nat \<Rightarrow> char list" where
  "read_bytes m p k = map (\<lambda>j. m (p + int j)) [0..<k]"

definition holds_c_string :: "(int \<Rightarrow> char) \<Rightarrow> char list \<Rightarrow> bool" where
  "holds_c_string m s \<longleftrightarrow> read_bytes m 0 (length s + 1) = s @ [NUL] \<and> NUL \<notin> set s"

text \<open>Every store lies inside the caller's array of \<open>sz\<close> bytes.\<close>

definition in_bounds :: "int \<Rightarrow> int list \<Rightarrow> bool" where
  "in_bounds sz ws \<longleftrightarrow> list_all (\<lambda>p. 0 \<le> p \<and> p < sz) ws"

text \<open>
  The loop over the list of segments instead of the index, with the same arithmetic on
  \<open>int\<close>: the position and the buffer it ends with.
\<close>

fun list_loop :: "c_int \<Rightarrow> char list ptr list \<Rightarrow> c_int \<Rightarrow> buffer \<Rightarrow> c_int \<times> buffer" where
  "list_loop result_size [] result_pos b = (result_pos, b)"
| "list_loop result_size (NULL # ps) result_pos b = list_loop result_size ps result_pos b"
| "list_loop result_size (Ptr text # ps) result_pos b =
     (let text_len = (of_nat (strlen text) :: c_int) in
      if sint (result_pos + text_len + 1) < sint result_size then
        list_loop result_size ps (result_pos + text_len) (strcpy (sint result_pos) text b)
      else (result_pos, b))"

text \<open>
  The guard in unbounded integers: the segments the loop copies or skips before it ends,
  when the write position is \<open>pos\<close> and the buffer has \<open>sz\<close> bytes.
\<close>

fun kept :: "int \<Rightarrow> int \<Rightarrow> char list ptr list \<Rightarrow> char list ptr list" where
  "kept sz pos [] = []"
| "kept sz pos (NULL # ps) = NULL # kept sz pos ps"
| "kept sz pos (Ptr text # ps) =
     (if pos + int (strlen text) + 1 < sz
      then Ptr text # kept sz (pos + int (strlen text)) ps else [])"

text \<open>No segment is so long that the guard's sum leaves the range of \<open>int\<close>.\<close>

definition short_segments :: "int \<Rightarrow> char list ptr list \<Rightarrow> bool" where
  "short_segments sz ps \<longleftrightarrow> list_all (\<lambda>t. int (strlen t) + sz < 2 ^ 31) (non_null ps)"

text \<open>The offsets a call of the wrapper has stored to.\<close>

definition stores :: "('st, 's, 'm, 'k) outcome \<Rightarrow> int list" where
  "stores out = (case buf out of NULL \<Rightarrow> [] | Ptr b \<Rightarrow> writes b)"

text \<open>A segment text of \<open>2^31 - 1\<close> bytes, the largest value of an \<open>int\<close>.\<close>

definition long_text :: "char list" where
  "long_text = replicate 2147483647 (CHR ''a'')"

text \<open>
  A library to run the wrapper on: \<open>whisper_full\<close> returns \<open>ret\<close> and leaves the segments
  \<open>segs\<close>; a context can be made on the GPU only; the default parameters differ from the
  wrapper's in every field.
\<close>

definition stub_lib :: "c_int \<Rightarrow> char list ptr list \<Rightarrow> (unit, unit, unit, unit) whisper_lib" where
  "stub_lib ret segs =
     \<lparr>whisper_context_default_params = \<lparr>use_gpu = False\<rparr>,
      whisper_init_from_file_with_params =
        (\<lambda>path cparams. if use_gpu cparams then Ptr () else NULL),
      whisper_full_default_params =
        (\<lambda>strategy. \<lparr>language = NULL, translate = True, print_realtime = True,
           print_progress = True, print_timestamps = True, print_special = True,
           no_context = False, single_segment = True, suppress_blank = False,
           suppress_nst = False, temperature = 2, max_initial_ts = 2, length_penalty = 2,
           n_threads = 1\<rparr>),
      whisper_reset_timings = (\<lambda>st. st),
      whisper_full = (\<lambda>st wparams smp n_samples. (ret, st)),
      whisper_full_n_segments = (\<lambda>st. of_nat (length segs)),
      whisper_full_get_segment_text =
        (\<lambda>st i. if unat i < length segs then segs ! unat i else NULL)\<rparr>"

text \<open>A caller's memory, every byte of it \<open>x\<close>.\<close>

definition fresh :: "int \<Rightarrow> char" where
  "fresh = (\<lambda>p. CHR ''x'')"

section \<open>Stores and strings\<close>

lemma store_bytes_writes:
  "writes (store_bytes p cs b) = writes b @ map (\<lambda>j. p + int j) [0..<length cs]"
proof (induction cs arbitrary: p b)
  case Nil
  then show ?case by simp
next
  case (Cons c cs)
  have "map (\<lambda>j. p + int j) [0..<Suc (length cs)] =
        p # map (\<lambda>j. p + 1 + int j) [0..<length cs]"
    by (simp add: upt_conv_Cons map_Suc_upt [symmetric] del: upt_Suc)
  with Cons show ?case by (simp add: poke_def)
qed

lemma store_bytes_mem:
  "mem (store_bytes p cs b) q =
     (if p \<le> q \<and> q < p + int (length cs) then cs ! nat (q - p) else mem b q)"
proof (induction cs arbitrary: p b)
  case Nil
  then show ?case by auto
next
  case (Cons c cs)
  have "mem (store_bytes (p + 1) cs (poke p c b)) q =
     (if p + 1 \<le> q \<and> q < p + 1 + int (length cs) then cs ! nat (q - (p + 1))
      else mem (poke p c b) q)"
    by (rule Cons.IH)
  moreover have "nat (q - (p + 1)) = nat (q - p) - Suc 0"
    by simp
  ultimately show ?case
    by (auto simp: poke_def nth_Cons')
qed

lemma c_str_no_NUL: "NUL \<notin> set (c_str bs)"
  unfolding c_str_def using set_takeWhileD by fastforce

lemma sint_of_nat_small:
  assumes "int n < 2 ^ 31"
  shows "sint (of_nat n :: c_int) = int n"
  using assms by (simp add: signed_of_nat signed_take_bit_int_eq_self)

lemma sint_add_of_nat:
  fixes p :: c_int
  assumes "0 \<le> sint p" and "sint p + int n < 2 ^ 31"
  shows "sint (p + of_nat n) = sint p + int n"
proof -
  have "sint (of_nat n :: c_int) = int n"
    using assms by (intro sint_of_nat_small) simp
  then show ?thesis
    using assms by (simp add: sint_word_ariths signed_take_bit_int_eq_self)
qed

lemma sint_add_of_nat_1:
  fixes p :: c_int
  assumes "0 \<le> sint p" and "sint p + int n + 1 < 2 ^ 31"
  shows "sint (p + of_nat n + 1) = sint p + int n + 1"
proof -
  have "sint (p + of_nat n) = sint p + int n"
    using assms by (intro sint_add_of_nat) simp_all
  then show ?thesis
    using assms by (simp add: sint_word_ariths signed_take_bit_int_eq_self)
qed

lemma segments_from_step:
  fixes i n :: c_int
  assumes "0 \<le> sint i" and "sint i < sint n"
  shows "segments_from get_text i n = get_text i # segments_from get_text (i + 1) n"
proof -
  have "nat (sint i) < nat (sint n)" using assms by simp
  then have "[nat (sint i)..<nat (sint n)] = nat (sint i) # [Suc (nat (sint i))..<nat (sint n)]"
    by (rule upt_conv_Cons)
  moreover have "Suc (nat (sint i)) = nat (sint (i + 1))"
    using assms by (simp add: sint_succ_less [OF assms(2)] nat_add_distrib)
  ultimately show ?thesis
    using assms by (simp add: segments_from_def)
qed

lemma segments_from_done:
  fixes i n :: c_int
  assumes "\<not> sint i < sint n"
  shows "segments_from get_text i n = []"
  using assms by (simp add: segments_from_def)

lemma seg_loop_list_loop:
  assumes "0 \<le> sint i"
  shows "(case seg_loop get_text n rs i pos b c of (pos', b', c') \<Rightarrow> (pos', b')) =
         list_loop rs (segments_from get_text i n) pos b"
  using assms
proof (induction get_text n rs i pos b c rule: seg_loop.induct)
  case (1 get_text n rs i pos b c)
  show ?case
  proof (cases "sint i < sint n")
    case False
    then show ?thesis
      by (simp add: seg_loop.simps [of get_text n rs i] segments_from_done)
  next
    case True
    note lt = True
    have nonneg: "0 \<le> sint (i + 1)"
      using "1.prems" by (simp add: sint_succ_less [OF True])
    note step = segments_from_step [OF "1.prems" True, of get_text]
    show ?thesis
    proof (cases "get_text i")
      case NULL
      then show ?thesis
        using "1.IH"(1) [OF True NULL nonneg] True
        by (simp add: seg_loop.simps [of get_text n rs i] step)
    next
      case (Ptr t)
      show ?thesis
      proof (cases "sint (pos + of_nat (strlen t) + 1) < sint rs")
        case True
        note fits = True
        then show ?thesis
          using "1.IH"(2) [OF lt Ptr refl fits nonneg] lt Ptr
          by (simp add: seg_loop.simps [of get_text n rs i] step)
      next
        case False
        then show ?thesis
          using lt Ptr by (simp add: seg_loop.simps [of get_text n rs i] step)
      qed
    qed
  qed
qed

lemma seg_loop_calls:
  "\<exists>ks. snd (snd (seg_loop get_text n rs i pos b c)) = c @ map Full_get_segment_text ks"
proof (induction get_text n rs i pos b c rule: seg_loop.induct)
  case (1 get_text n rs i pos b c)
  show ?case
  proof (cases "sint i < sint n")
    case False
    then show ?thesis
      by (simp add: seg_loop.simps [of get_text n rs i])
  next
    case True
    note lt = True
    show ?thesis
    proof (cases "get_text i")
      case NULL
      from "1.IH"(1) [OF True NULL] obtain ks where
        "snd (snd (seg_loop get_text n rs (i + 1) pos b (c @ [Full_get_segment_text i]))) =
           (c @ [Full_get_segment_text i]) @ map Full_get_segment_text ks" by blast
      then have "snd (snd (seg_loop get_text n rs i pos b c)) =
           c @ map Full_get_segment_text (i # ks)"
        using True NULL by (simp add: seg_loop.simps [of get_text n rs i])
      then show ?thesis by blast
    next
      case (Ptr t)
      show ?thesis
      proof (cases "sint (pos + of_nat (strlen t) + 1) < sint rs")
        case True
        note fits = True
        from "1.IH"(2) [OF lt Ptr refl fits] obtain ks where
          "snd (snd (seg_loop get_text n rs (i + 1) (pos + of_nat (strlen t))
                  (strcpy (sint pos) t b) (c @ [Full_get_segment_text i]))) =
           (c @ [Full_get_segment_text i]) @ map Full_get_segment_text ks" by blast
        then have "snd (snd (seg_loop get_text n rs i pos b c)) =
           c @ map Full_get_segment_text (i # ks)"
          using lt Ptr fits by (simp add: seg_loop.simps [of get_text n rs i])
        then show ?thesis by blast
      next
        case False
        then have "snd (snd (seg_loop get_text n rs i pos b c)) =
           c @ map Full_get_segment_text [i]"
          using lt Ptr by (simp add: seg_loop.simps [of get_text n rs i])
        then show ?thesis by blast
      qed
    qed
  qed
qed

section \<open>The loop on the integers\<close>

lemma read_bytes_append:
  "read_bytes m p (a + b) = read_bytes m p a @ read_bytes m (p + int a) b"
proof (rule nth_equalityI)
  show "length (read_bytes m p (a + b)) = length (read_bytes m p a @ read_bytes m (p + int a) b)"
    by (simp add: read_bytes_def)
next
  fix i
  assume "i < length (read_bytes m p (a + b))"
  then have i: "i < a + b" by (simp add: read_bytes_def)
  show "read_bytes m p (a + b) ! i = (read_bytes m p a @ read_bytes m (p + int a) b) ! i"
  proof (cases "i < a")
    case True
    with i show ?thesis by (simp add: read_bytes_def nth_append)
  next
    case False
    then have "int (i - a) = int i - int a" by simp
    with False i show ?thesis by (simp add: read_bytes_def nth_append)
  qed
qed

lemma read_bytes_cong:
  assumes "\<And>q. p \<le> q \<Longrightarrow> q < p + int k \<Longrightarrow> m q = m' q"
  shows "read_bytes m p k = read_bytes m' p k"
  using assms by (simp add: read_bytes_def)

lemma strcpy_mem_below: "q < p \<Longrightarrow> mem (strcpy p t b) q = mem b q"
  by (simp add: strcpy_def store_bytes_mem)

lemma strcpy_mem_in: "j < strlen t \<Longrightarrow> mem (strcpy p t b) (p + int j) = c_str t ! j"
  by (simp add: strcpy_def store_bytes_mem strlen_def nth_append)

lemma strcpy_read: "read_bytes (mem (strcpy p t b)) p (strlen t) = c_str t"
  by (rule nth_equalityI) (simp_all add: read_bytes_def strcpy_mem_in strlen_def)

lemma strcpy_writes:
  "writes (strcpy p t b) = writes b @ map (\<lambda>j. p + int j) [0..<Suc (strlen t)]"
  by (simp add: strcpy_def store_bytes_writes strlen_def del: upt_Suc)

lemma strcpy_in_bounds:
  assumes "0 \<le> p" and "p + int (strlen t) + 1 \<le> sz" and "in_bounds sz (writes b)"
  shows "in_bounds sz (writes (strcpy p t b))"
  using assms by (auto simp: in_bounds_def strcpy_writes list_all_iff simp del: upt_Suc)

lemma seg_string_simps [simp]:
  "seg_string [] = []"
  "seg_string (NULL # ps) = seg_string ps"
  "seg_string (Ptr t # ps) = c_str t @ seg_string ps"
  by (simp_all add: seg_string_def)

lemma seg_length_simps [simp]:
  "seg_length [] = 0"
  "seg_length (NULL # ps) = seg_length ps"
  "seg_length (Ptr t # ps) = int (strlen t) + seg_length ps"
  by (simp_all add: seg_length_def strlen_def)

lemma seg_length_nonneg: "0 \<le> seg_length ps"
  by (simp add: seg_length_def)

lemma short_segments_simps [simp]:
  "short_segments sz []"
  "short_segments sz (NULL # ps) = short_segments sz ps"
  "short_segments sz (Ptr t # ps) \<longleftrightarrow> int (strlen t) + sz < 2 ^ 31 \<and> short_segments sz ps"
  by (simp_all add: short_segments_def)

text \<open>The guard of the loop, computed on the machine, is the guard on the integers.\<close>

lemma guard_exact:
  fixes pos rs :: c_int
  assumes "0 \<le> sint pos" and "sint pos < sint rs"
    and "int n + sint rs < 2 ^ 31 \<or> sint pos + int n + 1 < sint rs"
  shows "sint (pos + of_nat n + 1) = sint pos + int n + 1"
    and "sint (pos + of_nat n) = sint pos + int n"
proof -
  have "sint rs < 2 ^ 31" using sint_lt [of rs] by simp
  with assms have *: "sint pos + int n + 1 < 2 ^ 31" by auto
  show "sint (pos + of_nat n + 1) = sint pos + int n + 1"
    using assms(1) * by (rule sint_add_of_nat_1)
  show "sint (pos + of_nat n) = sint pos + int n"
    using assms(1) * by (intro sint_add_of_nat) simp_all
qed

lemma list_loop_kept:
  assumes "0 \<le> sint pos" and "sint pos < sint rs"
    and "short_segments (sint rs) ps \<or> sint pos + seg_length ps + 1 < sint rs"
  shows "case list_loop rs ps pos b of (pos', b') \<Rightarrow>
           sint pos' = sint pos + seg_length (kept (sint rs) (sint pos) ps) \<and>
           sint pos' < sint rs \<and>
           (\<forall>q < sint pos. mem b' q = mem b q) \<and>
           read_bytes (mem b') (sint pos) (length (seg_string (kept (sint rs) (sint pos) ps))) =
             seg_string (kept (sint rs) (sint pos) ps) \<and>
           (in_bounds (sint rs) (writes b) \<longrightarrow> in_bounds (sint rs) (writes b'))"
  using assms
proof (induction ps arbitrary: pos b)
  case Nil
  then show ?case by (simp add: read_bytes_def)
next
  case (Cons p ps)
  show ?case
  proof (cases p)
    case NULL
    with Cons.IH [of pos b] Cons.prems show ?thesis by simp
  next
    case (Ptr t)
    let ?n = "strlen t"
    have pre: "int ?n + sint rs < 2 ^ 31 \<or> sint pos + int ?n + 1 < sint rs"
      using Cons.prems(3) Ptr seg_length_nonneg [of ps] by auto
    note g = guard_exact [OF Cons.prems(1,2) pre]
    show ?thesis
    proof (cases "sint pos + int ?n + 1 < sint rs")
      case False
      then show ?thesis
        using Ptr Cons.prems g by (simp add: read_bytes_def)
    next
      case True
      let ?pos1 = "pos + of_nat ?n"
      let ?b1 = "strcpy (sint pos) t b"
      let ?K = "kept (sint rs) (sint ?pos1) ps"
      obtain pos' b' where res: "list_loop rs ps ?pos1 ?b1 = (pos', b')"
        by (cases "list_loop rs ps ?pos1 ?b1") blast
      have p1: "0 \<le> sint ?pos1" "sint ?pos1 < sint rs"
        using g True Cons.prems by simp_all
      have p3: "short_segments (sint rs) ps \<or> sint ?pos1 + seg_length ps + 1 < sint rs"
        using Cons.prems(3) Ptr g by auto
      from Cons.IH [OF p1 p3, of ?b1] res
      have ih: "sint pos' = sint ?pos1 + seg_length ?K" "sint pos' < sint rs"
        "\<And>q. q < sint ?pos1 \<Longrightarrow> mem b' q = mem ?b1 q"
        "read_bytes (mem b') (sint ?pos1) (length (seg_string ?K)) = seg_string ?K"
        "in_bounds (sint rs) (writes ?b1) \<longrightarrow> in_bounds (sint rs) (writes b')"
        by auto
      have loop: "list_loop rs (p # ps) pos b = (pos', b')"
        using Ptr True g res by simp
      have keep: "kept (sint rs) (sint pos) (p # ps) = Ptr t # ?K"
        using Ptr True g by simp
      have below: "\<forall>q < sint pos. mem b' q = mem b q"
        using ih(3) g(2) by (simp add: strcpy_mem_below)
      have "read_bytes (mem b') (sint pos) ?n = read_bytes (mem ?b1) (sint pos) ?n"
        by (rule read_bytes_cong) (simp add: ih(3) g(2))
      then have first: "read_bytes (mem b') (sint pos) ?n = c_str t"
        by (simp add: strcpy_read)
      have "read_bytes (mem b') (sint pos) (?n + length (seg_string ?K)) =
            c_str t @ seg_string ?K"
        using first ih(4) g(2) by (simp add: read_bytes_append)
      then have rd: "read_bytes (mem b') (sint pos) (length (seg_string (Ptr t # ?K))) =
            seg_string (Ptr t # ?K)"
        by (simp add: strlen_def)
      have bounds: "in_bounds (sint rs) (writes b) \<longrightarrow> in_bounds (sint rs) (writes b')"
        using ih(5) strcpy_in_bounds [of "sint pos" t "sint rs" b] Cons.prems(1) True by auto
      show ?thesis
        unfolding loop keep using ih(1,2) g(2) below rd bounds by simp
    qed
  qed
qed

section \<open>Which segments are kept\<close>

lemma kept_all:
  assumes "pos + seg_length ps + 1 < sz"
  shows "kept sz pos ps = ps"
  using assms
proof (induction ps arbitrary: pos)
  case Nil
  then show ?case by simp
next
  case (Cons p ps)
  show ?case
  proof (cases p)
    case NULL
    with Cons show ?thesis by simp
  next
    case (Ptr t)
    have "pos + int (strlen t) + 1 < sz"
      using Cons.prems Ptr seg_length_nonneg [of ps] by simp
    moreover have "kept sz (pos + int (strlen t)) ps = ps"
      using Cons.prems Ptr by (intro Cons.IH) (simp add: add.assoc)
    ultimately show ?thesis using Ptr by simp
  qed
qed

lemma kept_all_fits:
  assumes "kept sz pos ps = ps" and "non_null ps \<noteq> []"
  shows "pos + seg_length ps + 1 < sz"
  using assms
proof (induction ps arbitrary: pos)
  case Nil
  then show ?case by simp
next
  case (Cons p ps)
  show ?case
  proof (cases p)
    case NULL
    with Cons show ?thesis by simp
  next
    case (Ptr t)
    have guard: "pos + int (strlen t) + 1 < sz"
      using Cons.prems(1) Ptr by (simp split: if_splits)
    then have rest: "kept sz (pos + int (strlen t)) ps = ps"
      using Cons.prems(1) Ptr by simp
    show ?thesis
    proof (cases "non_null ps = []")
      case True
      then have "seg_length ps = 0" by (simp add: seg_length_def seg_string_def)
      with guard Ptr show ?thesis by simp
    next
      case False
      from Cons.IH [OF rest False] Ptr show ?thesis by (simp add: add.assoc)
    qed
  qed
qed

text \<open>
  Where the loop stops short, it stops at a segment that fails the guard, and every
  segment before it has passed the guard.
\<close>

lemma kept_stops:
  assumes "kept sz pos ps \<noteq> ps"
  shows "\<exists>k t. k < length ps \<and> kept sz pos ps = take k ps \<and> ps ! k = Ptr t \<and>
           sz \<le> pos + seg_length (take k ps) + int (strlen t) + 1 \<and>
           (\<forall>j<k. \<forall>u. ps ! j = Ptr u \<longrightarrow>
              pos + seg_length (take j ps) + int (strlen u) + 1 < sz)"
  using assms
proof (induction ps arbitrary: pos)
  case Nil
  then show ?case by simp
next
  case (Cons p ps)
  show ?case
  proof (cases p)
    case NULL
    with Cons.prems have "kept sz pos ps \<noteq> ps" by simp
    from Cons.IH [OF this] obtain k t where k: "k < length ps" "kept sz pos ps = take k ps"
      "ps ! k = Ptr t" "sz \<le> pos + seg_length (take k ps) + int (strlen t) + 1"
      "\<forall>j<k. \<forall>u. ps ! j = Ptr u \<longrightarrow> pos + seg_length (take j ps) + int (strlen u) + 1 < sz"
      by blast
    have "\<forall>j<Suc k. \<forall>u. (p # ps) ! j = Ptr u \<longrightarrow>
            pos + seg_length (take j (p # ps)) + int (strlen u) + 1 < sz"
    proof (intro allI impI)
      fix j u assume j: "j < Suc k" and u: "(p # ps) ! j = Ptr u"
      show "pos + seg_length (take j (p # ps)) + int (strlen u) + 1 < sz"
      proof (cases j)
        case 0
        with u NULL show ?thesis by simp
      next
        case (Suc j')
        with j u k(5) NULL show ?thesis by simp
      qed
    qed
    with k NULL have "Suc k < length (p # ps) \<and> kept sz pos (p # ps) = take (Suc k) (p # ps) \<and>
        (p # ps) ! Suc k = Ptr t \<and>
        sz \<le> pos + seg_length (take (Suc k) (p # ps)) + int (strlen t) + 1 \<and>
        (\<forall>j<Suc k. \<forall>u. (p # ps) ! j = Ptr u \<longrightarrow>
            pos + seg_length (take j (p # ps)) + int (strlen u) + 1 < sz)"
      by simp
    then show ?thesis by blast
  next
    case (Ptr t0)
    show ?thesis
    proof (cases "pos + int (strlen t0) + 1 < sz")
      case False
      with Ptr have "0 < length (p # ps) \<and> kept sz pos (p # ps) = take 0 (p # ps) \<and>
        (p # ps) ! 0 = Ptr t0 \<and>
        sz \<le> pos + seg_length (take 0 (p # ps)) + int (strlen t0) + 1 \<and>
        (\<forall>j<0. \<forall>u. (p # ps) ! j = Ptr u \<longrightarrow>
            pos + seg_length (take j (p # ps)) + int (strlen u) + 1 < sz)"
        by simp
      then show ?thesis by blast
    next
      case True
      note guard = True
      let ?pos1 = "pos + int (strlen t0)"
      from Cons.prems Ptr guard have "kept sz ?pos1 ps \<noteq> ps" by simp
      from Cons.IH [OF this] obtain k t where k: "k < length ps"
        "kept sz ?pos1 ps = take k ps" "ps ! k = Ptr t"
        "sz \<le> ?pos1 + seg_length (take k ps) + int (strlen t) + 1"
        "\<forall>j<k. \<forall>u. ps ! j = Ptr u \<longrightarrow> ?pos1 + seg_length (take j ps) + int (strlen u) + 1 < sz"
        by blast
      have "\<forall>j<Suc k. \<forall>u. (p # ps) ! j = Ptr u \<longrightarrow>
              pos + seg_length (take j (p # ps)) + int (strlen u) + 1 < sz"
      proof (intro allI impI)
        fix j u assume j: "j < Suc k" and u: "(p # ps) ! j = Ptr u"
        show "pos + seg_length (take j (p # ps)) + int (strlen u) + 1 < sz"
        proof (cases j)
          case 0
          with u Ptr guard show ?thesis by simp
        next
          case (Suc j')
          with j u k(5) Ptr show ?thesis by (simp add: add.assoc)
        qed
      qed
      with k Ptr guard have "Suc k < length (p # ps) \<and>
          kept sz pos (p # ps) = take (Suc k) (p # ps) \<and>
          (p # ps) ! Suc k = Ptr t \<and>
          sz \<le> pos + seg_length (take (Suc k) (p # ps)) + int (strlen t) + 1 \<and>
          (\<forall>j<Suc k. \<forall>u. (p # ps) ! j = Ptr u \<longrightarrow>
              pos + seg_length (take j (p # ps)) + int (strlen u) + 1 < sz)"
        by (simp add: add.assoc)
      then show ?thesis by blast
    qed
  qed
qed

section \<open>The wrapper, path by path\<close>

lemma poke_mem: "mem (poke p c b) q = (if q = p then c else mem b q)"
  by (simp add: poke_def)

lemma poke_writes: "writes (poke p c b) = writes b @ [p]"
  by (simp add: poke_def)

lemma holds_c_string_poke:
  assumes "read_bytes (mem b) 0 (length s) = s" and "NUL \<notin> set s"
  shows "holds_c_string (mem (poke (int (length s)) NUL b)) s"
proof -
  let ?m = "mem (poke (int (length s)) NUL b)"
  have "read_bytes ?m 0 (length s) = read_bytes (mem b) 0 (length s)"
    by (rule read_bytes_cong) (simp add: poke_mem)
  moreover have "read_bytes ?m (int (length s)) 1 = [NUL]"
    by (simp add: read_bytes_def poke_mem)
  ultimately have "read_bytes ?m 0 (length s + 1) = s @ [NUL]"
    using assms(1) by (simp only: read_bytes_append) simp
  with assms(2) show ?thesis by (simp add: holds_c_string_def)
qed

lemma seg_string_no_NUL: "NUL \<notin> set (seg_string ps)"
  using c_str_no_NUL by (auto simp: seg_string_def)

text \<open>The loop of the wrapper, started as the wrapper starts it.\<close>

lemma seg_loop_result:
  assumes size: "0 < sint rs"
    and safe: "short_segments (sint rs) (segments_from get_text 0 n) \<or>
               seg_length (segments_from get_text 0 n) + 1 < sint rs"
    and run: "seg_loop get_text n rs 0 0 b c = (pos', b', c')"
  shows "holds_c_string (mem (poke (sint pos') NUL b'))
           (seg_string (kept (sint rs) 0 (segments_from get_text 0 n)))"
    and "in_bounds (sint rs) (writes b) \<Longrightarrow> in_bounds (sint rs) (writes (poke (sint pos') NUL b'))"
proof -
  let ?ps = "segments_from get_text 0 n"
  let ?K = "kept (sint rs) 0 ?ps"
  have "list_loop rs ?ps 0 b = (pos', b')"
    using seg_loop_list_loop [of 0 get_text n rs 0 b c] run by simp
  with list_loop_kept [of 0 rs ?ps b] size safe
  have pos: "sint pos' = seg_length ?K" and lt: "sint pos' < sint rs"
    and rd: "read_bytes (mem b') 0 (length (seg_string ?K)) = seg_string ?K"
    and wr: "in_bounds (sint rs) (writes b) \<longrightarrow> in_bounds (sint rs) (writes b')"
    by simp_all
  have at: "sint pos' = int (length (seg_string ?K))"
    using pos by (simp add: seg_length_def)
  show "holds_c_string (mem (poke (sint pos') NUL b')) (seg_string ?K)"
    unfolding at using rd seg_string_no_NUL by (rule holds_c_string_poke)
  show "in_bounds (sint rs) (writes (poke (sint pos') NUL b'))"
    if "in_bounds (sint rs) (writes b)"
    using that wr lt at by (simp add: in_bounds_def poke_writes)
qed

text \<open>The wrapper after a successful \<open>whisper_full\<close>, unfolded.\<close>

lemma transcribe_rejected:
  assumes "ctx = NULL \<or> samples = NULL \<or> result = NULL \<or> sint result_size \<le> 0"
  shows "whisper_wrapper_full_transcribe L ctx samples n_samples result result_size =
         rejected ctx result"
  using assms
  by (auto simp: whisper_wrapper_full_transcribe_def split: ptr.splits)

lemma transcribe_failed:
  assumes "0 < sint result_size"
    and "whisper_full L (whisper_reset_timings L st) (wrapper_full_params L) smp n_samples =
           (ret, st2)"
    and "ret \<noteq> 0"
  shows "whisper_wrapper_full_transcribe L (Ptr st) (Ptr smp) n_samples (Ptr m) result_size =
         \<lparr>retval = ret, ctx_out = Ptr st2, buf = Ptr \<lparr>mem = m, writes = []\<rparr>,
          calls = [Full_default_params WHISPER_SAMPLING_GREEDY, Reset_timings,
                   Full (wrapper_full_params L) smp n_samples]\<rparr>"
  using assms by (simp add: whisper_wrapper_full_transcribe_def)

lemma transcribe_no_segments:
  assumes "0 < sint result_size"
    and "whisper_full L (whisper_reset_timings L st) (wrapper_full_params L) smp n_samples =
           (0, st2)"
    and "whisper_full_n_segments L st2 = 0"
  shows "whisper_wrapper_full_transcribe L (Ptr st) (Ptr smp) n_samples (Ptr m) result_size =
         \<lparr>retval = 0, ctx_out = Ptr st2, buf = Ptr (poke 0 NUL \<lparr>mem = m, writes = []\<rparr>),
          calls = [Full_default_params WHISPER_SAMPLING_GREEDY, Reset_timings,
                   Full (wrapper_full_params L) smp n_samples, Full_n_segments]\<rparr>"
  using assms by (simp add: whisper_wrapper_full_transcribe_def)

lemma transcribe_segments:
  assumes "0 < sint result_size"
    and "whisper_full L (whisper_reset_timings L st) (wrapper_full_params L) smp n_samples =
           (0, st2)"
    and "whisper_full_n_segments L st2 \<noteq> 0"
    and "seg_loop (whisper_full_get_segment_text L st2) (whisper_full_n_segments L st2)
           result_size 0 0 \<lparr>mem = m, writes = []\<rparr>
           [Full_default_params WHISPER_SAMPLING_GREEDY, Reset_timings,
            Full (wrapper_full_params L) smp n_samples, Full_n_segments] = (pos', b', c')"
  shows "whisper_wrapper_full_transcribe L (Ptr st) (Ptr smp) n_samples (Ptr m) result_size =
         \<lparr>retval = 0, ctx_out = Ptr st2, buf = Ptr (poke (sint pos') NUL b'),
          calls = c' @ [Print_timings]\<rparr>"
  using assms by (simp add: whisper_wrapper_full_transcribe_def)

lemma transcribe_result:
  fixes L :: "('st, 's, 'm, 'k) whisper_lib"
  assumes size: "0 < sint result_size"
    and full: "whisper_full L (whisper_reset_timings L st) (wrapper_full_params L) smp
                 n_samples = (0, st2)"
    and safe: "short_segments (sint result_size) (segments L st2) \<or>
               seg_length (segments L st2) + 1 < sint result_size"
  shows "\<exists>b. whisper_wrapper_full_transcribe L (Ptr st) (Ptr smp) n_samples (Ptr m) result_size =
             \<lparr>retval = 0, ctx_out = Ptr st2, buf = Ptr b,
              calls = calls (whisper_wrapper_full_transcribe L (Ptr st) (Ptr smp) n_samples
                        (Ptr m) result_size)\<rparr> \<and>
           holds_c_string (mem b) (seg_string (kept (sint result_size) 0 (segments L st2))) \<and>
           in_bounds (sint result_size) (writes b)"
proof (cases "whisper_full_n_segments L st2 = 0")
  case True
  then have "segments L st2 = []"
    by (simp add: segments_def segments_from_def)
  moreover have "holds_c_string (mem (poke 0 NUL \<lparr>mem = m, writes = []\<rparr>)) []"
    by (simp add: holds_c_string_def read_bytes_def poke_mem)
  moreover have "in_bounds (sint result_size) (writes (poke 0 NUL \<lparr>mem = m, writes = []\<rparr>))"
    using size by (simp add: in_bounds_def poke_writes)
  ultimately show ?thesis
    by (simp add: transcribe_no_segments [OF size full True])
next
  case False
  let ?b0 = "\<lparr>mem = m, writes = []\<rparr>"
  let ?c0 = "[Full_default_params WHISPER_SAMPLING_GREEDY, Reset_timings,
              Full (wrapper_full_params L) smp n_samples, Full_n_segments]
             :: ('s, 'm, 'k) lib_call list"
  obtain pos' b' c' where run:
    "seg_loop (whisper_full_get_segment_text L st2) (whisper_full_n_segments L st2)
       result_size 0 0 ?b0 ?c0 = (pos', b', c')"
    by (metis prod_cases3)
  have safe': "short_segments (sint result_size)
        (segments_from (whisper_full_get_segment_text L st2) 0 (whisper_full_n_segments L st2)) \<or>
      seg_length (segments_from (whisper_full_get_segment_text L st2) 0
        (whisper_full_n_segments L st2)) + 1 < sint result_size"
    using safe by (simp add: segments_def)
  have "holds_c_string (mem (poke (sint pos') NUL b'))
          (seg_string (kept (sint result_size) 0 (segments L st2)))"
    using seg_loop_result(1) [OF size safe' run] by (simp add: segments_def)
  moreover have "in_bounds (sint result_size) (writes (poke (sint pos') NUL b'))"
    using seg_loop_result(2) [OF size safe' run] by (simp add: in_bounds_def)
  ultimately show ?thesis
    by (simp add: transcribe_segments [OF size full False run])
qed

text \<open>Past the validation, the first three calls into the library are made.\<close>

lemma transcribe_proceeds:
  fixes L :: "('st, 's, 'm, 'k) whisper_lib"
  assumes size: "0 < sint result_size"
  shows "take 3 (calls (whisper_wrapper_full_transcribe L (Ptr st) (Ptr smp) n_samples (Ptr m)
           result_size)) =
         [Full_default_params WHISPER_SAMPLING_GREEDY, Reset_timings,
          Full (wrapper_full_params L) smp n_samples]"
proof -
  obtain ret st2 where full:
    "whisper_full L (whisper_reset_timings L st) (wrapper_full_params L) smp n_samples =
       (ret, st2)"
    by (cases "whisper_full L (whisper_reset_timings L st) (wrapper_full_params L) smp n_samples")
  let ?c0 = "[Full_default_params WHISPER_SAMPLING_GREEDY, Reset_timings,
              Full (wrapper_full_params L) smp n_samples, Full_n_segments]
             :: ('s, 'm, 'k) lib_call list"
  show ?thesis
  proof (cases "ret = 0")
    case False
    with size full show ?thesis by (simp add: transcribe_failed)
  next
    case True
    note zero = True
    show ?thesis
    proof (cases "whisper_full_n_segments L st2 = 0")
      case True
      with size full zero show ?thesis by (simp add: transcribe_no_segments)
    next
      case False
      obtain pos' b' c' where run:
        "seg_loop (whisper_full_get_segment_text L st2) (whisper_full_n_segments L st2)
           result_size 0 0 \<lparr>mem = m, writes = []\<rparr> ?c0 = (pos', b', c')"
        by (metis prod_cases3)
      from seg_loop_calls [of "whisper_full_get_segment_text L st2"
          "whisper_full_n_segments L st2" result_size 0 0 "\<lparr>mem = m, writes = []\<rparr>" ?c0] run
      obtain ks where "c' = ?c0 @ map Full_get_segment_text ks" by auto
      with size full zero False run show ?thesis by (simp add: transcribe_segments)
    qed
  qed
qed

text \<open>Every call the wrapper makes, whatever the path.\<close>

lemma transcribe_calls:
  fixes L :: "('st, 's, 'm, 'k) whisper_lib"
  shows "set (calls (whisper_wrapper_full_transcribe L ctx samples n_samples result result_size)) \<subseteq>
         {Full_default_params WHISPER_SAMPLING_GREEDY, Reset_timings, Full_n_segments,
          Print_timings} \<union>
         {Full (wrapper_full_params L) smp n_samples |smp. samples = Ptr smp} \<union>
         range Full_get_segment_text"
proof (cases "ctx = NULL \<or> samples = NULL \<or> result = NULL \<or> sint result_size \<le> 0")
  case True
  then show ?thesis
    by (simp add: transcribe_rejected [OF True] rejected_def)
next
  case False
  then obtain st smp m where p: "ctx = Ptr st" "samples = Ptr smp" "result = Ptr m"
    and size: "0 < sint result_size"
    by (cases ctx; cases samples; cases result) auto
  obtain ret st2 where full:
    "whisper_full L (whisper_reset_timings L st) (wrapper_full_params L) smp n_samples =
       (ret, st2)"
    by (cases "whisper_full L (whisper_reset_timings L st) (wrapper_full_params L) smp n_samples")
  let ?c0 = "[Full_default_params WHISPER_SAMPLING_GREEDY, Reset_timings,
              Full (wrapper_full_params L) smp n_samples, Full_n_segments]
             :: ('s, 'm, 'k) lib_call list"
  show ?thesis
  proof (cases "ret = 0")
    case False
    with size full p show ?thesis by (simp add: transcribe_failed)
  next
    case True
    note zero = True
    show ?thesis
    proof (cases "whisper_full_n_segments L st2 = 0")
      case True
      with size full zero p show ?thesis by (simp add: transcribe_no_segments)
    next
      case False
      obtain pos' b' c' where run:
        "seg_loop (whisper_full_get_segment_text L st2) (whisper_full_n_segments L st2)
           result_size 0 0 \<lparr>mem = m, writes = []\<rparr> ?c0 = (pos', b', c')"
        by (metis prod_cases3)
      from seg_loop_calls [of "whisper_full_get_segment_text L st2"
          "whisper_full_n_segments L st2" result_size 0 0 "\<lparr>mem = m, writes = []\<rparr>" ?c0] run
      obtain ks where "c' = ?c0 @ map Full_get_segment_text ks" by auto
      with size full zero False run p show ?thesis
        by (auto simp: transcribe_segments)
    qed
  qed
qed

lemma wrapper_full_params_eq:
  "wrapper_full_params L =
     (whisper_full_default_params L WHISPER_SAMPLING_GREEDY)
       \<lparr>language := Ptr ''en'', translate := False, print_realtime := False,
        print_progress := False, print_timestamps := False, print_special := False,
        no_context := True, single_segment := False, suppress_blank := True,
        suppress_nst := True, temperature := 0, max_initial_ts := 1, length_penalty := - 1,
        n_threads := 4\<rparr>"
  by (simp add: wrapper_full_params_def Let_def)

text \<open>The stub library, evaluated.\<close>

lemma stub_segments [simp]:
  "length segs < 2 ^ 31 \<Longrightarrow> segments (stub_lib ret segs) st = segs"
proof -
  assume len: "length segs < 2 ^ 31"
  then have n: "nat (sint (of_nat (length segs) :: c_int)) = length segs"
    by (simp add: sint_of_nat_small)
  have "\<And>k. k < length segs \<Longrightarrow> unat (of_nat k :: c_int) = k"
    using len by (simp add: unsigned_of_nat take_bit_nat_eq_self)
  then have "map (\<lambda>k. if unat (of_nat k :: c_int) < length segs
                        then segs ! unat (of_nat k :: c_int) else NULL) [0..<length segs] =
             map (\<lambda>k. segs ! k) [0..<length segs]"
    by simp
  then show ?thesis
    by (simp add: segments_def segments_from_def stub_lib_def n map_nth)
qed

lemma stub_full [simp]:
  "whisper_full (stub_lib ret segs) st wparams smp n = (ret, st)"
  by (simp add: stub_lib_def)

lemma stub_n_segments [simp]:
  "whisper_full_n_segments (stub_lib ret segs) st = of_nat (length segs)"
  by (simp add: stub_lib_def)

lemma stub_get_segment_text [simp]:
  "whisper_full_get_segment_text (stub_lib ret segs) st i =
     (if unat i < length segs then segs ! unat i else NULL)"
  by (simp add: stub_lib_def)

lemma stub_reset [simp]: "whisper_reset_timings (stub_lib ret segs) st = st"
  by (simp add: stub_lib_def)

section \<open>Properties of the wrapper\<close>

text \<open>
  C3. When the inputs pass validation, the wrapper returns what \<open>whisper_full\<close> returned:
  a nonzero code unchanged, and 0 exactly when \<open>whisper_full\<close> returned 0.
\<close>

theorem transcribe_returns_library_code:
  fixes L :: "('st, 's, 'm, 'k) whisper_lib"
  assumes "0 < sint result_size"
    and "whisper_full L (whisper_reset_timings L st) (wrapper_full_params L) smp n_samples =
           (ret, st2)"
  shows "retval (whisper_wrapper_full_transcribe L (Ptr st) (Ptr smp) n_samples (Ptr m)
           result_size) = ret"
proof (cases "ret = 0")
  case False
  with assms show ?thesis by (simp add: transcribe_failed)
next
  case True
  note zero = True
  show ?thesis
  proof (cases "whisper_full_n_segments L st2 = 0")
    case True
    with assms zero show ?thesis by (simp add: transcribe_no_segments)
  next
    case False
    obtain pos' b' c' where
      "seg_loop (whisper_full_get_segment_text L st2) (whisper_full_n_segments L st2)
         result_size 0 0 \<lparr>mem = m, writes = []\<rparr>
         ([Full_default_params WHISPER_SAMPLING_GREEDY, Reset_timings,
           Full (wrapper_full_params L) smp n_samples, Full_n_segments]
          :: ('s, 'm, 'k) lib_call list) = (pos', b', c')"
      by (metis prod_cases3)
    with assms zero False show ?thesis by (simp add: transcribe_segments)
  qed
qed

theorem transcribe_returns_library_code_witness:
  "retval (whisper_wrapper_full_transcribe (stub_lib 7 []) (Ptr ()) (Ptr ()) 0 (Ptr fresh) 8) = 7 \<and>
   retval (whisper_wrapper_full_transcribe (stub_lib (- 3) []) (Ptr ()) (Ptr ()) 0 (Ptr fresh) 8) = - 3 \<and>
   retval (whisper_wrapper_full_transcribe (stub_lib 0 [Ptr ''ab'']) (Ptr ()) (Ptr ()) 0 (Ptr fresh) 8) = 0"
  using transcribe_returns_library_code [of 8 "stub_lib 7 []" "()" "()" 0 7 "()" fresh]
    transcribe_returns_library_code [of 8 "stub_lib (- 3) []" "()" "()" 0 "- 3" "()" fresh]
    transcribe_returns_library_code [of 8 "stub_lib 0 [Ptr ''ab'']" "()" "()" 0 0 "()" fresh]
  by (simp add: stub_lib_def)

text \<open>
  C4. The wrapper returns -1 without a call into the library and without a store when
  \<open>ctx\<close>, \<open>samples\<close> or \<open>result\<close> is null or \<open>result_size\<close> is not positive; on every
  other input it goes on to the library, whose first three calls are made.
\<close>

theorem transcribe_validation:
  fixes L :: "('st, 's, 'm, 'k) whisper_lib"
  shows "(if ctx = NULL \<or> samples = NULL \<or> result = NULL \<or> sint result_size \<le> 0
          then whisper_wrapper_full_transcribe L ctx samples n_samples result result_size =
                 rejected ctx result \<and>
               retval (rejected ctx result :: ('st, 's, 'm, 'k) outcome) = - 1 \<and>
               calls (rejected ctx result :: ('st, 's, 'm, 'k) outcome) = [] \<and>
               ctx_out (rejected ctx result :: ('st, 's, 'm, 'k) outcome) = ctx \<and>
               (\<forall>m. result = Ptr m \<longrightarrow>
                  buf (rejected ctx result :: ('st, 's, 'm, 'k) outcome) =
                    Ptr \<lparr>mem = m, writes = []\<rparr>)
          else \<exists>st smp. ctx = Ptr st \<and> samples = Ptr smp \<and>
               take 3 (calls (whisper_wrapper_full_transcribe L ctx samples n_samples result
                 result_size)) =
                 [Full_default_params WHISPER_SAMPLING_GREEDY, Reset_timings,
                  Full (wrapper_full_params L) smp n_samples])"
proof (cases "ctx = NULL \<or> samples = NULL \<or> result = NULL \<or> sint result_size \<le> 0")
  case True
  then show ?thesis
    by (simp add: transcribe_rejected [OF True] rejected_def)
next
  case False
  then obtain st smp m where p: "ctx = Ptr st" "samples = Ptr smp" "result = Ptr m"
    and size: "0 < sint result_size"
    by (cases ctx; cases samples; cases result) auto
  have "take 3 (calls (whisper_wrapper_full_transcribe L (Ptr st) (Ptr smp) n_samples (Ptr m)
          result_size)) =
        [Full_default_params WHISPER_SAMPLING_GREEDY, Reset_timings,
         Full (wrapper_full_params L) smp n_samples]"
    using size by (rule transcribe_proceeds)
  with False p show ?thesis by simp
qed

theorem transcribe_validation_witness:
  "whisper_wrapper_full_transcribe (stub_lib 0 [Ptr ''ab'']) NULL (Ptr ()) 0 (Ptr fresh) 8 =
     rejected NULL (Ptr fresh) \<and>
   whisper_wrapper_full_transcribe (stub_lib 0 [Ptr ''ab'']) (Ptr ()) (Ptr ()) 0 (Ptr fresh) 0 =
     rejected (Ptr ()) (Ptr fresh) \<and>
   take 3 (calls (whisper_wrapper_full_transcribe (stub_lib 0 [Ptr ''ab'']) (Ptr ()) (Ptr ()) 0
     (Ptr fresh) 8)) =
     [Full_default_params WHISPER_SAMPLING_GREEDY, Reset_timings,
      Full (wrapper_full_params (stub_lib 0 [Ptr ''ab''])) () 0]"
  using transcribe_validation [of NULL "Ptr ()" "Ptr fresh" 8 "stub_lib 0 [Ptr ''ab'']" 0]
    transcribe_validation [of "Ptr ()" "Ptr ()" "Ptr fresh" 0 "stub_lib 0 [Ptr ''ab'']" 0]
    transcribe_validation [of "Ptr ()" "Ptr ()" "Ptr fresh" 8 "stub_lib 0 [Ptr ''ab'']" 0]
  by simp

text \<open>
  C6. \<open>whisper_wrapper_init_from_file\<close> returns the pointer the library's
  init-from-file call returned: null exactly when that call returned null.
\<close>

theorem init_returns_library_context:
  "fst (whisper_wrapper_init_from_file L path_model) =
     whisper_init_from_file_with_params L path_model
       ((whisper_context_default_params L)\<lparr>use_gpu := True\<rparr>) \<and>
   (fst (whisper_wrapper_init_from_file L path_model) = NULL \<longleftrightarrow>
      whisper_init_from_file_with_params L path_model
        ((whisper_context_default_params L)\<lparr>use_gpu := True\<rparr>) = NULL)"
  by (simp add: whisper_wrapper_init_from_file_def Let_def)

text \<open>
  C5. The parameters of every \<open>whisper_full\<close> call the wrapper makes are the library's
  defaults for the greedy strategy with the fields of lines 43 to 60 set to fixed values:
  they are made from the library alone, not from the audio. The context parameters of
  every init call have \<open>use_gpu\<close> set.
\<close>

theorem fixed_library_parameters:
  fixes L :: "('st, 's, 'm, 'k) whisper_lib"
  shows "(\<forall>p smp n. Full p smp n \<in> set (calls (whisper_wrapper_full_transcribe L ctx samples
             n_samples result result_size)) \<longrightarrow> p = wrapper_full_params L) \<and>
         (\<forall>strategy. Full_default_params strategy \<in> set (calls (whisper_wrapper_full_transcribe L
             ctx samples n_samples result result_size)) \<longrightarrow> strategy = WHISPER_SAMPLING_GREEDY) \<and>
         whisper_full_params.more (wrapper_full_params L) =
           whisper_full_params.more (whisper_full_default_params L WHISPER_SAMPLING_GREEDY) \<and>
         language (wrapper_full_params L) = Ptr ''en'' \<and>
         \<not> translate (wrapper_full_params L) \<and>
         no_context (wrapper_full_params L) \<and>
         \<not> single_segment (wrapper_full_params L) \<and>
         suppress_blank (wrapper_full_params L) \<and>
         suppress_nst (wrapper_full_params L) \<and>
         temperature (wrapper_full_params L) = 0 \<and>
         max_initial_ts (wrapper_full_params L) = 1 \<and>
         length_penalty (wrapper_full_params L) = - 1 \<and>
         n_threads (wrapper_full_params L) = 4 \<and>
         (\<forall>q c. Init_from_file_with_params q c \<in>
             set (snd (whisper_wrapper_init_from_file L path_model :: _ \<times> ('s, 'm, 'k) lib_call list)) \<longrightarrow>
             use_gpu c)"
proof -
  have "\<forall>p smp n. Full p smp n \<in> set (calls (whisper_wrapper_full_transcribe L ctx samples
          n_samples result result_size)) \<longrightarrow> p = wrapper_full_params L"
    using transcribe_calls [of L ctx samples n_samples result result_size] by auto
  moreover have "\<forall>strategy. Full_default_params strategy \<in>
      set (calls (whisper_wrapper_full_transcribe L ctx samples n_samples result result_size)) \<longrightarrow>
      strategy = WHISPER_SAMPLING_GREEDY"
    using transcribe_calls [of L ctx samples n_samples result result_size] by auto
  moreover have "\<forall>q c. Init_from_file_with_params q c \<in>
      set (snd (whisper_wrapper_init_from_file L path_model :: _ \<times> ('s, 'm, 'k) lib_call list)) \<longrightarrow>
      use_gpu c"
    by (auto simp: whisper_wrapper_init_from_file_def Let_def)
  ultimately show ?thesis
    by (simp add: wrapper_full_params_eq)
qed

theorem fixed_library_parameters_witness:
  "Full (wrapper_full_params (stub_lib 0 [Ptr ''ab''])) () 5 \<in>
     set (calls (whisper_wrapper_full_transcribe (stub_lib 0 [Ptr ''ab'']) (Ptr ()) (Ptr ()) 5
       (Ptr fresh) 8)) \<and>
   Init_from_file_with_params (Ptr ''model.bin'') \<lparr>use_gpu = True\<rparr> \<in>
     set (snd (whisper_wrapper_init_from_file (stub_lib 0 [Ptr ''ab'']) (Ptr ''model.bin'')
       :: _ \<times> (unit, unit, unit) lib_call list)) \<and>
   n_threads (wrapper_full_params (stub_lib 0 [Ptr ''ab''])) = 4 \<and>
   language (wrapper_full_params (stub_lib 0 [Ptr ''ab''])) = Ptr ''en'' \<and>
   temperature (wrapper_full_params (stub_lib 0 [Ptr ''ab''])) = 0"
proof -
  have "take 3 (calls (whisper_wrapper_full_transcribe (stub_lib 0 [Ptr ''ab'']) (Ptr ()) (Ptr ()) 5
          (Ptr fresh) 8)) =
        [Full_default_params WHISPER_SAMPLING_GREEDY, Reset_timings,
         Full (wrapper_full_params (stub_lib 0 [Ptr ''ab''])) () 5]"
    by (rule transcribe_proceeds) simp
  then have "Full (wrapper_full_params (stub_lib 0 [Ptr ''ab''])) () 5 \<in>
     set (calls (whisper_wrapper_full_transcribe (stub_lib 0 [Ptr ''ab'']) (Ptr ()) (Ptr ()) 5
       (Ptr fresh) 8))"
    by (metis in_set_takeD list.set_intros(1) list.set_intros(2))
  moreover have "Init_from_file_with_params (Ptr ''model.bin'') \<lparr>use_gpu = True\<rparr> \<in>
     set (snd (whisper_wrapper_init_from_file (stub_lib 0 [Ptr ''ab'']) (Ptr ''model.bin'')
       :: _ \<times> (unit, unit, unit) lib_call list))"
    by (simp add: whisper_wrapper_init_from_file_def stub_lib_def)
  ultimately show ?thesis
    using fixed_library_parameters [of "stub_lib 0 [Ptr ''ab'']" "Ptr ()" "Ptr ()" 5 "Ptr fresh" 8
        "Ptr ''model.bin''"]
    by simp
qed

text \<open>
  C2, as amended. When the inputs pass validation and \<open>whisper_full\<close> returns 0, the wrapper
  returns 0 and \<open>result\<close> holds the concatenation, in ascending index order, of the non-null
  segment texts, provided their total length is at most \<open>result_size - 2\<close> or the library
  reports zero segments, when the string is empty.
\<close>

theorem transcribe_concatenates:
  fixes L :: "('st, 's, 'm, 'k) whisper_lib"
  assumes size: "0 < sint result_size"
    and full: "whisper_full L (whisper_reset_timings L st) (wrapper_full_params L) smp
                 n_samples = (0, st2)"
    and fits: "seg_length (segments L st2) + 1 < sint result_size \<or>
               whisper_full_n_segments L st2 = 0"
  shows "retval (whisper_wrapper_full_transcribe L (Ptr st) (Ptr smp) n_samples (Ptr m)
           result_size) = 0 \<and>
         (\<exists>b. buf (whisper_wrapper_full_transcribe L (Ptr st) (Ptr smp) n_samples (Ptr m)
                 result_size) = Ptr b \<and>
              holds_c_string (mem b) (seg_string (segments L st2))) \<and>
         (whisper_full_n_segments L st2 = 0 \<longrightarrow> seg_string (segments L st2) = [])"
proof -
  have all: "kept (sint result_size) 0 (segments L st2) = segments L st2"
  proof (cases "whisper_full_n_segments L st2 = 0")
    case True
    then show ?thesis by (simp add: segments_def segments_from_def)
  next
    case False
    with fits show ?thesis by (intro kept_all) simp
  qed
  have safe: "short_segments (sint result_size) (segments L st2) \<or>
              seg_length (segments L st2) + 1 < sint result_size"
  proof (cases "whisper_full_n_segments L st2 = 0")
    case True
    then show ?thesis by (simp add: segments_def segments_from_def)
  next
    case False
    with fits show ?thesis by simp
  qed
  from transcribe_result [OF size full safe, of m] obtain b where
    out: "whisper_wrapper_full_transcribe L (Ptr st) (Ptr smp) n_samples (Ptr m) result_size =
           \<lparr>retval = 0, ctx_out = Ptr st2, buf = Ptr b,
            calls = calls (whisper_wrapper_full_transcribe L (Ptr st) (Ptr smp) n_samples
                      (Ptr m) result_size)\<rparr>"
    and str: "holds_c_string (mem b) (seg_string (kept (sint result_size) 0 (segments L st2)))"
    by blast
  have r: "retval (whisper_wrapper_full_transcribe L (Ptr st) (Ptr smp) n_samples (Ptr m)
             result_size) = 0"
    by (subst out) simp
  have bf: "buf (whisper_wrapper_full_transcribe L (Ptr st) (Ptr smp) n_samples (Ptr m)
              result_size) = Ptr b"
    by (subst out) simp
  have "whisper_full_n_segments L st2 = 0 \<longrightarrow> seg_string (segments L st2) = []"
    by (simp add: segments_def segments_from_def)
  with r bf str all show ?thesis by auto
qed

theorem transcribe_concatenates_witness:
  "retval (whisper_wrapper_full_transcribe (stub_lib 0 [Ptr ''ab'', NULL, Ptr ''cd'']) (Ptr ())
     (Ptr ()) 0 (Ptr fresh) 6) = 0 \<and>
   (\<exists>b. buf (whisper_wrapper_full_transcribe (stub_lib 0 [Ptr ''ab'', NULL, Ptr ''cd''])
           (Ptr ()) (Ptr ()) 0 (Ptr fresh) 6) = Ptr b \<and>
        holds_c_string (mem b) ''abcd'') \<and>
   retval (whisper_wrapper_full_transcribe (stub_lib 0 []) (Ptr ()) (Ptr ()) 0 (Ptr fresh) 1) = 0 \<and>
   (\<exists>b. buf (whisper_wrapper_full_transcribe (stub_lib 0 []) (Ptr ()) (Ptr ()) 0 (Ptr fresh) 1) =
           Ptr b \<and>
        holds_c_string (mem b) [])"
  using transcribe_concatenates [of 6 "stub_lib 0 [Ptr ''ab'', NULL, Ptr ''cd'']" "()" "()" 0 "()"
      fresh]
    transcribe_concatenates [of 1 "stub_lib 0 []" "()" "()" 0 "()" fresh]
  by (simp add: seg_string_def c_str_def strlen_def)

text \<open>
  The claim as it was written fails where the text and its terminator fill the buffer to its
  last byte: a segment of three bytes fits a buffer of four, and the wrapper leaves the
  empty string.
\<close>

theorem transcribe_concatenates_counterexample:
  "seg_length (segments (stub_lib 0 [Ptr ''abc'']) ()) + 1 \<le> sint (4 :: c_int) \<and>
   retval (whisper_wrapper_full_transcribe (stub_lib 0 [Ptr ''abc'']) (Ptr ()) (Ptr ()) 0
     (Ptr fresh) 4) = 0 \<and>
   buf (whisper_wrapper_full_transcribe (stub_lib 0 [Ptr ''abc'']) (Ptr ()) (Ptr ()) 0
     (Ptr fresh) 4) = Ptr (poke 0 NUL \<lparr>mem = fresh, writes = []\<rparr>) \<and>
   holds_c_string (mem (poke 0 NUL \<lparr>mem = fresh, writes = []\<rparr>)) [] \<and>
   \<not> holds_c_string (mem (poke 0 NUL \<lparr>mem = fresh, writes = []\<rparr>))
       (seg_string (segments (stub_lib 0 [Ptr ''abc'']) ()))"
  by (simp add: whisper_wrapper_full_transcribe_def seg_loop.simps strlen_def c_str_def
      seg_string_def holds_c_string_def read_bytes_def poke_def)

text \<open>
  C7, as amended. When the inputs pass validation, \<open>whisper_full\<close> returns 0, some segment
  text is not null, every segment text is shorter than \<open>2^31 - result_size\<close> bytes, and the
  total length of the texts is \<open>result_size - 1\<close> or more, the wrapper stops at the first
  segment \<open>k\<close> that fails the guard \<open>result_pos + text_len + 1 < result_size\<close> (a text that
  would fill the buffer to its last byte fails it), leaves in \<open>result\<close> the terminated
  concatenation of the non-null texts of the segments before \<open>k\<close>, whole, and returns 0.
\<close>

theorem transcribe_truncates:
  fixes L :: "('st, 's, 'm, 'k) whisper_lib"
  assumes size: "0 < sint result_size"
    and full: "whisper_full L (whisper_reset_timings L st) (wrapper_full_params L) smp
                 n_samples = (0, st2)"
    and short: "short_segments (sint result_size) (segments L st2)"
    and some: "non_null (segments L st2) \<noteq> []"
    and nofit: "sint result_size \<le> seg_length (segments L st2) + 1"
  shows "\<exists>k t b. k < length (segments L st2) \<and> segments L st2 ! k = Ptr t \<and>
           sint result_size \<le> seg_length (take k (segments L st2)) + int (strlen t) + 1 \<and>
           (\<forall>j<k. \<forall>u. segments L st2 ! j = Ptr u \<longrightarrow>
              seg_length (take j (segments L st2)) + int (strlen u) + 1 < sint result_size) \<and>
           buf (whisper_wrapper_full_transcribe L (Ptr st) (Ptr smp) n_samples (Ptr m)
             result_size) = Ptr b \<and>
           holds_c_string (mem b) (seg_string (take k (segments L st2))) \<and>
           retval (whisper_wrapper_full_transcribe L (Ptr st) (Ptr smp) n_samples (Ptr m)
             result_size) = 0"
proof -
  let ?ps = "segments L st2"
  let ?out = "whisper_wrapper_full_transcribe L (Ptr st) (Ptr smp) n_samples (Ptr m) result_size"
  have "kept (sint result_size) 0 ?ps \<noteq> ?ps"
  proof
    assume "kept (sint result_size) 0 ?ps = ?ps"
    from kept_all_fits [OF this some] nofit show False by simp
  qed
  from kept_stops [OF this] obtain k t where k: "k < length ?ps"
    and keep: "kept (sint result_size) 0 ?ps = take k ?ps"
    and at: "?ps ! k = Ptr t"
    and fails: "sint result_size \<le> 0 + seg_length (take k ?ps) + int (strlen t) + 1"
    and before: "\<forall>j<k. \<forall>u. ?ps ! j = Ptr u \<longrightarrow>
                   0 + seg_length (take j ?ps) + int (strlen u) + 1 < sint result_size"
    by blast
  from transcribe_result [of result_size L st smp n_samples st2 m] size full short
  obtain b where out: "?out = \<lparr>retval = 0, ctx_out = Ptr st2, buf = Ptr b, calls = calls ?out\<rparr>"
    and str: "holds_c_string (mem b) (seg_string (kept (sint result_size) 0 ?ps))"
    by blast
  have r: "retval ?out = 0" by (subst out) simp
  have bf: "buf ?out = Ptr b" by (subst out) simp
  from k at fails before bf str r show ?thesis
    unfolding keep by (intro exI [of _ k] exI [of _ t] exI [of _ b]) simp
qed

theorem transcribe_truncates_witness:
  "\<exists>k t b. k < length [Ptr ''ab'', NULL, Ptr ''cd'', Ptr ''e''] \<and>
     [Ptr ''ab'', NULL, Ptr ''cd'', Ptr ''e''] ! k = Ptr t \<and>
     6 \<le> seg_length (take k [Ptr ''ab'', NULL, Ptr ''cd'', Ptr ''e'']) + int (strlen t) + 1 \<and>
     buf (whisper_wrapper_full_transcribe (stub_lib 0 [Ptr ''ab'', NULL, Ptr ''cd'', Ptr ''e''])
       (Ptr ()) (Ptr ()) 0 (Ptr fresh) 6) = Ptr b \<and>
     holds_c_string (mem b) (seg_string (take k [Ptr ''ab'', NULL, Ptr ''cd'', Ptr ''e''])) \<and>
     retval (whisper_wrapper_full_transcribe (stub_lib 0 [Ptr ''ab'', NULL, Ptr ''cd'', Ptr ''e''])
       (Ptr ()) (Ptr ()) 0 (Ptr fresh) 6) = 0"
proof -
  have "\<exists>k t b. k < length (segments (stub_lib 0 [Ptr ''ab'', NULL, Ptr ''cd'', Ptr ''e'']) ()) \<and>
     segments (stub_lib 0 [Ptr ''ab'', NULL, Ptr ''cd'', Ptr ''e'']) () ! k = Ptr t \<and>
     sint (6 :: c_int) \<le>
       seg_length (take k (segments (stub_lib 0 [Ptr ''ab'', NULL, Ptr ''cd'', Ptr ''e'']) ())) +
       int (strlen t) + 1 \<and>
     (\<forall>j<k. \<forall>u. segments (stub_lib 0 [Ptr ''ab'', NULL, Ptr ''cd'', Ptr ''e'']) () ! j = Ptr u \<longrightarrow>
        seg_length (take j (segments (stub_lib 0 [Ptr ''ab'', NULL, Ptr ''cd'', Ptr ''e'']) ())) +
        int (strlen u) + 1 < sint (6 :: c_int)) \<and>
     buf (whisper_wrapper_full_transcribe (stub_lib 0 [Ptr ''ab'', NULL, Ptr ''cd'', Ptr ''e''])
       (Ptr ()) (Ptr ()) 0 (Ptr fresh) 6) = Ptr b \<and>
     holds_c_string (mem b)
       (seg_string (take k (segments (stub_lib 0 [Ptr ''ab'', NULL, Ptr ''cd'', Ptr ''e'']) ()))) \<and>
     retval (whisper_wrapper_full_transcribe (stub_lib 0 [Ptr ''ab'', NULL, Ptr ''cd'', Ptr ''e''])
       (Ptr ()) (Ptr ()) 0 (Ptr fresh) 6) = 0"
    by (rule transcribe_truncates [of 6 "stub_lib 0 [Ptr ''ab'', NULL, Ptr ''cd'', Ptr ''e'']"
          "()" "()" 0 "()" fresh])
       (simp_all add: strlen_def c_str_def)
  then show ?thesis by (simp only: stub_segments length_Cons list.size) auto
qed

text \<open>
  The claim as it was written fails at the same off-by-one: of the segments \<open>abc\<close> and \<open>d\<close>
  in a buffer of four bytes, the first with its terminator fits and the second is the
  first that does not, yet the wrapper stops at the first and leaves the empty string.
\<close>

theorem transcribe_truncates_counterexample:
  "sint (4 :: c_int) < seg_length (segments (stub_lib 0 [Ptr ''abc'', Ptr ''d'']) ()) + 1 \<and>
   int (strlen ''abc'') + 1 \<le> sint (4 :: c_int) \<and>
   retval (whisper_wrapper_full_transcribe (stub_lib 0 [Ptr ''abc'', Ptr ''d'']) (Ptr ()) (Ptr ()) 0
     (Ptr fresh) 4) = 0 \<and>
   buf (whisper_wrapper_full_transcribe (stub_lib 0 [Ptr ''abc'', Ptr ''d'']) (Ptr ()) (Ptr ()) 0
     (Ptr fresh) 4) = Ptr (poke 0 NUL \<lparr>mem = fresh, writes = []\<rparr>) \<and>
   holds_c_string (mem (poke 0 NUL \<lparr>mem = fresh, writes = []\<rparr>)) [] \<and>
   \<not> holds_c_string (mem (poke 0 NUL \<lparr>mem = fresh, writes = []\<rparr>)) ''abc''"
  by (simp add: whisper_wrapper_full_transcribe_def seg_loop.simps strlen_def c_str_def
      seg_string_def holds_c_string_def read_bytes_def poke_def)

text \<open>
  Where no segment text is as long as \<open>2^31 - result_size\<close> bytes, every store of the
  wrapper lies inside the caller's array, and on a return of 0 the array holds a
  terminated string shorter than \<open>result_size\<close>.
\<close>

lemma transcribe_in_bounds:
  fixes L :: "('st, 's, 'm, 'k) whisper_lib"
  assumes size: "0 < sint result_size"
    and short: "\<And>st2. whisper_full L (whisper_reset_timings L st) (wrapper_full_params L) smp
                  n_samples = (0, st2) \<Longrightarrow> short_segments (sint result_size) (segments L st2)"
  shows "in_bounds (sint result_size)
           (stores (whisper_wrapper_full_transcribe L (Ptr st) (Ptr smp) n_samples (Ptr m)
              result_size))"
    and "retval (whisper_wrapper_full_transcribe L (Ptr st) (Ptr smp) n_samples (Ptr m)
           result_size) = 0 \<Longrightarrow>
         \<exists>b s. buf (whisper_wrapper_full_transcribe L (Ptr st) (Ptr smp) n_samples (Ptr m)
                  result_size) = Ptr b \<and> holds_c_string (mem b) s \<and>
               int (length s) \<le> sint result_size - 1"
proof -
  let ?out = "whisper_wrapper_full_transcribe L (Ptr st) (Ptr smp) n_samples (Ptr m) result_size"
  obtain ret st2 where full:
    "whisper_full L (whisper_reset_timings L st) (wrapper_full_params L) smp n_samples =
       (ret, st2)"
    by (cases "whisper_full L (whisper_reset_timings L st) (wrapper_full_params L) smp n_samples")
  have "in_bounds (sint result_size) (stores ?out) \<and>
        (retval ?out = 0 \<longrightarrow> (\<exists>b s. buf ?out = Ptr b \<and> holds_c_string (mem b) s \<and>
               int (length s) \<le> sint result_size - 1))"
  proof (cases "ret = 0")
    case False
    with size full show ?thesis
      by (simp add: transcribe_failed stores_def in_bounds_def)
  next
    case True
    with full have full0: "whisper_full L (whisper_reset_timings L st) (wrapper_full_params L)
        smp n_samples = (0, st2)" by simp
    let ?K = "kept (sint result_size) 0 (segments L st2)"
    from transcribe_result [of result_size L st smp n_samples st2 m] size full0 short [OF full0]
    obtain b where out: "?out = \<lparr>retval = 0, ctx_out = Ptr st2, buf = Ptr b, calls = calls ?out\<rparr>"
      and str: "holds_c_string (mem b) (seg_string ?K)"
      and inb: "in_bounds (sint result_size) (writes b)"
      by blast
    have bf: "buf ?out = Ptr b" by (subst out) simp
    have len: "int (length (seg_string ?K)) \<le> sint result_size - 1"
      using list_loop_kept [of 0 result_size "segments L st2" "\<lparr>mem = m, writes = []\<rparr>"]
        size short [OF full0]
      by (auto split: prod.splits simp: seg_length_def)
    from bf str len inb show ?thesis by (auto simp: stores_def)
  qed
  then show "in_bounds (sint result_size) (stores ?out)"
    and "retval ?out = 0 \<Longrightarrow> \<exists>b s. buf ?out = Ptr b \<and> holds_c_string (mem b) s \<and>
               int (length s) \<le> sint result_size - 1"
    by simp_all
qed

lemma strlen_long_text: "strlen long_text = 2147483647"
  by (simp add: strlen_def c_str_def long_text_def)

text \<open>
  C1 fails on the code. With a buffer of two bytes and a segment text of \<open>2^31 - 1\<close>
  bytes, the sum \<open>result_pos + text_len + 1\<close> of the guard wraps around to \<open>-2^31\<close>, the
  guard holds, \<open>strcpy\<close> runs, and offset 2 is stored to; the wrapper returns 0.
\<close>

theorem transcribe_overflows_buffer:
  "sint ((0 :: c_int) + of_nat (strlen long_text) + 1) = - 2147483648 \<and>
   retval (whisper_wrapper_full_transcribe (stub_lib 0 [Ptr long_text]) (Ptr ()) (Ptr ()) 0
     (Ptr fresh) 2) = 0 \<and>
   2 \<in> set (stores (whisper_wrapper_full_transcribe (stub_lib 0 [Ptr long_text]) (Ptr ()) (Ptr ())
     0 (Ptr fresh) 2)) \<and>
   \<not> in_bounds (sint (2 :: c_int))
       (stores (whisper_wrapper_full_transcribe (stub_lib 0 [Ptr long_text]) (Ptr ()) (Ptr ())
          0 (Ptr fresh) 2))"
proof -
  let ?b0 = "\<lparr>mem = fresh, writes = []\<rparr>"
  let ?out = "whisper_wrapper_full_transcribe (stub_lib 0 [Ptr long_text]) (Ptr ()) (Ptr ()) 0
     (Ptr fresh) 2"
  have wrap: "sint ((0 :: c_int) + of_nat (strlen long_text) + 1) = - 2147483648"
    by (simp add: strlen_long_text)
  have out: "?out = \<lparr>retval = 0, ctx_out = Ptr (),
      buf = Ptr (poke 2147483647 NUL (strcpy 0 long_text ?b0)),
      calls = [Full_default_params WHISPER_SAMPLING_GREEDY, Reset_timings,
               Full (wrapper_full_params (stub_lib 0 [Ptr long_text])) () 0, Full_n_segments,
               Full_get_segment_text 0, Print_timings]\<rparr>"
    by (simp add: whisper_wrapper_full_transcribe_def seg_loop.simps strlen_long_text)
  have "(2 :: int) = 0 + int 2" by simp
  moreover have "(2 :: nat) \<in> set [0..<Suc (strlen long_text)]"
    by (simp add: strlen_long_text)
  ultimately have "2 \<in> set (writes (strcpy 0 long_text ?b0))"
    unfolding strcpy_writes by (simp del: upt_Suc)
  then have two: "2 \<in> set (stores ?out)"
    by (simp add: out stores_def poke_writes)
  then have "\<not> in_bounds (sint (2 :: c_int)) (stores ?out)"
    by (auto simp: in_bounds_def list_all_iff)
  with wrap two show ?thesis by (simp add: out)
qed

end
